theory Spec2Isabelle
  imports Main
begin

section \<open>Locale registry (i18n configuration)\<close>

text \<open>
  The configuration module declares the supported locales as an array of string literals
  and the type \<open>Locale\<close> as the union of those literals. The union is a datatype here,
  \<open>locale_code\<close> gives the string each member stands for, and \<open>locales\<close> is the array.
\<close>

datatype Locale = En | Ja | Ko | Es | Fr | De | Zh | ZhTW | Pt | Ar

fun locale_code :: "Locale \<Rightarrow> string" where
  "locale_code En = ''en''"
| "locale_code Ja = ''ja''"
| "locale_code Ko = ''ko''"
| "locale_code Es = ''es''"
| "locale_code Fr = ''fr''"
| "locale_code De = ''de''"
| "locale_code Zh = ''zh''"
| "locale_code ZhTW = ''zh-TW''"
| "locale_code Pt = ''pt''"
| "locale_code Ar = ''ar''"

definition locales :: "string list" where
  "locales = [''en'', ''ja'', ''ko'', ''es'', ''fr'', ''de'', ''zh'', ''zh-TW'', ''pt'', ''ar'']"

definition defaultLocale :: Locale where
  "defaultLocale = En"

text \<open>\<open>locales.includes(locale)\<close>: strict equality against the elements of the array.\<close>

definition isValidLocale :: "string \<Rightarrow> bool" where
  "isValidLocale locale = (locale \<in> set locales)"

text \<open>
  \<open>String.prototype.split\<close> with a one-character separator: the pieces between the
  occurrences of the separator, empty pieces included; the result is never the empty
  array (\<open>''''.split('/')\<close> is \<open>['''']\<close>).
\<close>

fun split_on :: "char \<Rightarrow> string \<Rightarrow> string list" where
  "split_on sep [] = [[]]"
| "split_on sep (c # cs) =
     (if c = sep then [] # split_on sep cs
      else (case split_on sep cs of
              [] \<Rightarrow> [[c]]
            | s # ss \<Rightarrow> (c # s) # ss))"

text \<open>
  \<open>getLocaleFromPath\<close>: \<open>filter(Boolean)\<close> drops the empty strings, \<open>segments[0]\<close> is
  \<open>undefined\<close> when nothing is left, and the segment itself is returned when it is valid.
\<close>

definition getLocaleFromPath :: "string \<Rightarrow> string option" where
  "getLocaleFromPath path =
     (let segments = filter (\<lambda>s. s \<noteq> []) (split_on CHR ''/'' path) in
      case segments of
        [] \<Rightarrow> None
      | firstSegment # _ \<Rightarrow> if isValidLocale firstSegment then Some firstSegment else None)"

text \<open>
  The first regular expression of \<open>getLocalizedPath\<close>,
  \<^verbatim>\<open>/^\/(en|ja|ko|es|fr|de|zh-TW|zh|pt|ar)(\/|$)/\<close>, is anchored at the start: after the
  leading slash the alternatives are tried in the order written, and an alternative
  matches when the text after it is empty or begins with a slash. \<open>strip_alternatives\<close>
  returns what follows the whole match, or \<open>None\<close> when no alternative matches.
\<close>

definition prefix_alternatives :: "string list" where
  "prefix_alternatives =
     [''en'', ''ja'', ''ko'', ''es'', ''fr'', ''de'', ''zh-TW'', ''zh'', ''pt'', ''ar'']"

fun strip_alternatives :: "string list \<Rightarrow> string \<Rightarrow> string option" where
  "strip_alternatives [] rest = None"
| "strip_alternatives (alt # alts) rest =
     (if take (length alt) rest = alt then
        (case drop (length alt) rest of
           [] \<Rightarrow> Some []
         | c # cs \<Rightarrow> if c = CHR ''/'' then Some cs else strip_alternatives alts rest)
      else strip_alternatives alts rest)"

definition remove_locale_prefix :: "string \<Rightarrow> string" where
  "remove_locale_prefix path =
     (case path of
        [] \<Rightarrow> []
      | c # rest \<Rightarrow>
          if c = CHR ''/'' then
            (case strip_alternatives prefix_alternatives rest of
               None \<Rightarrow> path
             | Some after \<Rightarrow> CHR ''/'' # after)
          else path)"

text \<open>\<^verbatim>\<open>replace(/^\/+/, '/')\<close>: a leading run of slashes becomes one slash.\<close>

definition collapse_leading_slashes :: "string \<Rightarrow> string" where
  "collapse_leading_slashes p =
     (case p of
        [] \<Rightarrow> []
      | c # cs \<Rightarrow> if c = CHR ''/'' then CHR ''/'' # dropWhile (\<lambda>x. x = CHR ''/'') cs else p)"

definition getLocalizedPath :: "string \<Rightarrow> Locale \<Rightarrow> string" where
  "getLocalizedPath path locale =
     (let cleanPath = remove_locale_prefix path;
          normalizedPath = (if cleanPath = ''/'' then ''/'' else collapse_leading_slashes cleanPath)
      in ''/'' @ locale_code locale @ (if normalizedPath = ''/'' then ''/'' else normalizedPath))"


section \<open>Nested key lookup (\<open>getNestedValue\<close>)\<close>

text \<open>
  The message bundles are parsed JSON and \<open>getNestedValue\<close> works on values of type
  \<open>unknown\<close>, so the model has every kind of JSON value, and \<open>undefined\<close> for a property
  that is not there. An object is its list of own properties (keys are unique in an
  object; \<open>map_of\<close> reads a key). The payload of a number plays no part in the lookup.
\<close>

datatype jsval =
    JUndefined
  | JNull
  | JBool bool
  | JNum int
  | JStr string
  | JArr "jsval list"
  | JObj "(string \<times> jsval) list"

fun typeof :: "jsval \<Rightarrow> string" where
  "typeof JUndefined = ''undefined''"
| "typeof JNull = ''object''"
| "typeof (JBool _) = ''boolean''"
| "typeof (JNum _) = ''number''"
| "typeof (JStr _) = ''string''"
| "typeof (JArr _) = ''object''"
| "typeof (JObj _) = ''object''"

datatype js_error = TypeError

text \<open>
  An array or a string answers to the canonical decimal form of an index (no sign, no
  leading zero) and to \<open>length\<close>.
\<close>

definition is_digit :: "char \<Rightarrow> bool" where
  "is_digit c = (c \<in> set ''0123456789'')"

definition digits_value :: "string \<Rightarrow> nat" where
  "digits_value s = foldl (\<lambda>n c. 10 * n + (of_char c - 48)) 0 s"

definition array_index :: "string \<Rightarrow> nat option" where
  "array_index key =
     (if key \<noteq> [] \<and> list_all is_digit key \<and> (key = ''0'' \<or> hd key \<noteq> CHR ''0'')
      then Some (digits_value key) else None)"

definition indexed_property :: "jsval list \<Rightarrow> string \<Rightarrow> jsval" where
  "indexed_property xs key =
     (case array_index key of
        Some i \<Rightarrow> if i < length xs then xs ! i else JUndefined
      | None \<Rightarrow> if key = ''length'' then JNum (int (length xs)) else JUndefined)"

text \<open>
  \<open>current[key]\<close>. Reading a property of \<open>null\<close> or \<open>undefined\<close> throws a \<open>TypeError\<close>.
  Only own properties are modelled: what an object or an array inherits from its
  prototype chain is a function, a prototype object whose own members are again
  functions, or \<open>null\<close>, so no string is reachable through an inherited property and
  such a read ends in \<open>undefined\<close> in \<open>getNestedValue\<close> exactly as an absent key does.
\<close>

fun get_property :: "jsval \<Rightarrow> string \<Rightarrow> js_error + jsval" where
  "get_property JUndefined key = Inl TypeError"
| "get_property JNull key = Inl TypeError"
| "get_property (JObj props) key =
     Inr (case map_of props key of None \<Rightarrow> JUndefined | Some v \<Rightarrow> v)"
| "get_property (JArr xs) key = Inr (indexed_property xs key)"
| "get_property (JStr s) key = Inr (indexed_property (map (\<lambda>c. JStr [c]) s) key)"
| "get_property (JBool _) key = Inr JUndefined"
| "get_property (JNum _) key = Inr JUndefined"

text \<open>
  The \<open>for\<close> loop over the keys, \<open>current\<close> being the loop variable; the guard returns
  \<open>undefined\<close> (here \<open>None\<close>) before the property is read, and after the last key the
  value is returned when it is a string.
\<close>

fun walk_keys :: "jsval \<Rightarrow> string list \<Rightarrow> js_error + string option" where
  "walk_keys current [] = Inr (case current of JStr s \<Rightarrow> Some s | _ \<Rightarrow> None)"
| "walk_keys current (key # keys) =
     (if current = JNull \<or> current = JUndefined \<or> typeof current \<noteq> ''object'' then Inr None
      else (case get_property current key of
              Inl e \<Rightarrow> Inl e
            | Inr v \<Rightarrow> walk_keys v keys))"

definition getNestedValue :: "jsval \<Rightarrow> string \<Rightarrow> js_error + string option" where
  "getNestedValue obj path = walk_keys obj (split_on CHR ''.'' path)"

section \<open>Message trees\<close>

text \<open>
  A message tree in the sense of the specification: a leaf string or a nested mapping
  from keys to trees. \<open>js_of\<close> is the parsed JSON value such a tree is stored as.
\<close>

datatype msg = Leaf string | Node "(string \<times> msg) list"

fun js_of :: "msg \<Rightarrow> jsval" where
  "js_of (Leaf s) = JStr s"
| "js_of (Node entries) = JObj (map (\<lambda>(k, t). (k, js_of t)) entries)"

text \<open>Keys are unique at every level of a well-formed tree, as in any object.\<close>

fun wf_msg :: "msg \<Rightarrow> bool" where
  "wf_msg (Leaf s) = True"
| "wf_msg (Node entries) = (distinct (map fst entries) \<and> (\<forall>(k, t) \<in> set entries. wf_msg t))"

text \<open>The keys of a tree and the subtree or leaf stored under a key.\<close>

fun keys_of :: "msg \<Rightarrow> string set" where
  "keys_of (Leaf s) = {}"
| "keys_of (Node entries) = fst ` set entries"

fun child :: "msg \<Rightarrow> string \<Rightarrow> msg option" where
  "child (Leaf s) k = None"
| "child (Node entries) k = map_of entries k"

text \<open>
  The resolver as the specification words it (section 4.3), to compare \<open>getNestedValue\<close>
  with: split the path on the separator and walk the tree segment by segment; when the
  current node is not a tree and segments remain, or a segment is absent, the result is
  none; the leaf is returned only when the last segment lands on a string.
\<close>

fun resolve_segments :: "msg \<Rightarrow> string list \<Rightarrow> string option" where
  "resolve_segments (Leaf s) [] = Some s"
| "resolve_segments (Node entries) [] = None"
| "resolve_segments (Leaf s) (k # ks) = None"
| "resolve_segments (Node entries) (k # ks) =
     (case map_of entries k of
        None \<Rightarrow> None
      | Some t \<Rightarrow> resolve_segments t ks)"

definition resolve :: "msg \<Rightarrow> string \<Rightarrow> string option" where
  "resolve tree dotPath = resolve_segments tree (split_on CHR ''.'' dotPath)"


section \<open>Tool content lookup (\<open>getToolContent\<close>)\<close>

text \<open>
  The nine per-language tables are imported from modules that are data only; they are
  parameters here, each a table from tool id to content. \<open>objectPrototype\<close> is what any
  plain object answers for a key it does not own (the members of \<open>Object.prototype\<close>),
  the same for every table. A content value is an object, hence truthy, so the test
  \<open>localeContent[toolId]\<close> succeeds exactly when the read yields a value.
\<close>

record 'c ToolContentTables =
  toolContentEn :: "string \<rightharpoonup> 'c"
  toolContentJa :: "string \<rightharpoonup> 'c"
  toolContentKo :: "string \<rightharpoonup> 'c"
  toolContentEs :: "string \<rightharpoonup> 'c"
  toolContentFr :: "string \<rightharpoonup> 'c"
  toolContentDe :: "string \<rightharpoonup> 'c"
  toolContentZh :: "string \<rightharpoonup> 'c"
  toolContentPt :: "string \<rightharpoonup> 'c"
  toolContentAr :: "string \<rightharpoonup> 'c"
  objectPrototype :: "string \<rightharpoonup> 'c"

definition table_read :: "'c ToolContentTables \<Rightarrow> (string \<rightharpoonup> 'c) \<Rightarrow> string \<Rightarrow> 'c option" where
  "table_read T table key =
     (case table key of
        Some v \<Rightarrow> Some v
      | None \<Rightarrow> objectPrototype T key)"

definition contentMap :: "'c ToolContentTables \<Rightarrow> (string \<times> (string \<rightharpoonup> 'c)) list" where
  "contentMap T =
     [(''en'', toolContentEn T),
      (''ja'', toolContentJa T),
      (''ko'', toolContentKo T),
      (''es'', toolContentEs T),
      (''fr'', toolContentFr T),
      (''de'', toolContentDe T),
      (''zh'', toolContentZh T),
      (''pt'', toolContentPt T),
      (''ar'', toolContentAr T)]"

definition getToolContent :: "'c ToolContentTables \<Rightarrow> Locale \<Rightarrow> string \<Rightarrow> 'c option" where
  "getToolContent T locale toolId =
     (let effectiveLocale = (if locale = ZhTW then ''zh'' else locale_code locale);
          fallback = table_read T (toolContentEn T) toolId
      in case map_of (contentMap T) effectiveLocale of
           None \<Rightarrow> fallback
         | Some localeContent \<Rightarrow>
             (case table_read T localeContent toolId of
                Some content \<Rightarrow> Some content
              | None \<Rightarrow> fallback))"

section \<open>Fallback merge, translator and error-code check\<close>

text \<open>
  Modelled from the spec: \<open>mergeWithFallback\<close> (the specification's \<open>mergeOver\<close>) is
  defined in the fallback module, which is re-exported by the i18n index but is not among
  the sources. Section 4.4: at each key present in either tree, if both sides have nested
  trees at that key, recurse; if primary has a leaf, primary wins; if primary is missing
  the key entirely, base's subtree or leaf is used. The specification does not say what
  happens where primary has a nested tree and base has a leaf; primary is kept there, as
  the candidate wins over the base. The result lists primary's keys, then the keys only
  base has.
\<close>

fun mergeWithFallback :: "msg \<Rightarrow> msg \<Rightarrow> msg" where
  "mergeWithFallback (Node primary) (Node base) =
     Node (map (\<lambda>(k, v). (k, case map_of base k of
                                 Some b \<Rightarrow> mergeWithFallback v b
                               | None \<Rightarrow> v)) primary
           @ filter (\<lambda>(k, b). map_of primary k = None) base)"
| "mergeWithFallback primary base = primary"

text \<open>
  A key path names a place in a tree: the keys to follow from the root. \<open>subtree_at\<close> is
  what the tree holds there, \<open>has_key_path\<close> says that it holds something, and
  \<open>beneath_leaf\<close> says that the path runs on past a leaf of the tree. \<open>depth\<close> is the
  number of nested levels.
\<close>

fun subtree_at :: "msg \<Rightarrow> string list \<Rightarrow> msg option" where
  "subtree_at t [] = Some t"
| "subtree_at (Leaf s) (k # ks) = None"
| "subtree_at (Node entries) (k # ks) =
     (case map_of entries k of
        None \<Rightarrow> None
      | Some t \<Rightarrow> subtree_at t ks)"

definition has_key_path :: "msg \<Rightarrow> string list \<Rightarrow> bool" where
  "has_key_path t ks = (subtree_at t ks \<noteq> None)"

fun beneath_leaf :: "msg \<Rightarrow> string list \<Rightarrow> bool" where
  "beneath_leaf t [] = False"
| "beneath_leaf (Leaf s) (k # ks) = True"
| "beneath_leaf (Node entries) (k # ks) =
     (case map_of entries k of
        None \<Rightarrow> False
      | Some t \<Rightarrow> beneath_leaf t ks)"

fun depth :: "msg \<Rightarrow> nat" where
  "depth (Leaf s) = 0"
| "depth (Node entries) = Suc (foldr (\<lambda>(k, t) m. max (depth t) m) entries 0)"

text \<open>
  Modelled from the spec: the same absent \<open>mergeWithFallback\<close>, as it acts on objects in
  memory. Section 4.4: produces a new tree; never mutates inputs. A property value is a
  string or a reference to an object, an object is its list of properties, and the heap
  is the list of the objects allocated so far, an address being a position in it. The
  merge reads the two objects, merges their properties as above (recursively where both
  values are references), and allocates the result at the end of the heap; it writes
  nowhere else. A value that is not merged is copied as it is, so the result may share
  subtrees with its arguments. The recursion follows references, which an arbitrary heap
  may chain without end, so it is bounded by a fuel argument; the result is \<open>None\<close> when
  the fuel is used up or an address is not allocated. \<open>stored h v t\<close> says that the value
  \<open>v\<close> in the heap \<open>h\<close> is the tree \<open>t\<close>.
\<close>

datatype hval = HStr string | HRef nat

type_synonym hobj = "(string \<times> hval) list"
type_synonym heap = "hobj list"

definition both_objects :: "hval \<Rightarrow> hval option \<Rightarrow> (nat \<times> nat) option" where
  "both_objects v b =
     (case v of
        HStr s \<Rightarrow> None
      | HRef pa \<Rightarrow>
          (case b of
             Some (HRef ba) \<Rightarrow> Some (pa, ba)
           | _ \<Rightarrow> None))"

fun mergeWithFallback_heap :: "nat \<Rightarrow> heap \<Rightarrow> nat \<Rightarrow> nat \<Rightarrow> (heap \<times> nat) option"
  and merge_properties :: "nat \<Rightarrow> heap \<Rightarrow> hobj \<Rightarrow> hobj \<Rightarrow> (heap \<times> hobj) option" where
  "mergeWithFallback_heap 0 h a b = None"
| "mergeWithFallback_heap (Suc fuel) h a b =
     (if a < length h \<and> b < length h then
        (case merge_properties fuel h (h ! a) (h ! b) of
           None \<Rightarrow> None
         | Some (h', merged) \<Rightarrow>
             Some (h' @ [merged @ filter (\<lambda>(k, v). map_of (h ! a) k = None) (h ! b)],
                   length h'))
      else None)"
| "merge_properties fuel h [] base = Some (h, [])"
| "merge_properties fuel h ((k, v) # rest) base =
     (case both_objects v (map_of base k) of
        Some (pa, ba) \<Rightarrow>
          (case mergeWithFallback_heap fuel h pa ba of
             None \<Rightarrow> None
           | Some (h1, r) \<Rightarrow>
               (case merge_properties fuel h1 rest base of
                  None \<Rightarrow> None
                | Some (h2, merged) \<Rightarrow> Some (h2, (k, HRef r) # merged)))
      | None \<Rightarrow>
          (case merge_properties fuel h rest base of
             None \<Rightarrow> None
           | Some (h2, merged) \<Rightarrow> Some (h2, (k, v) # merged)))"

fun stored :: "heap \<Rightarrow> hval \<Rightarrow> msg \<Rightarrow> bool"
  and stored_properties :: "heap \<Rightarrow> hobj \<Rightarrow> (string \<times> msg) list \<Rightarrow> bool" where
  "stored h (HStr s) (Leaf t) = (s = t)"
| "stored h (HRef a) (Node entries) = (a < length h \<and> stored_properties h (h ! a) entries)"
| "stored h (HStr s) (Node entries) = False"
| "stored h (HRef a) (Leaf t) = False"
| "stored_properties h [] [] = True"
| "stored_properties h ((k, v) # props) ((k', t) # entries) =
     (k = k' \<and> stored h v t \<and> stored_properties h props entries)"
| "stored_properties h [] (e # entries) = False"
| "stored_properties h (p # props) [] = False"

text \<open>
  Modelled from the spec: \<open>createTranslator\<close> (the specification's \<open>makeTranslator\<close>) is
  defined in the same absent fallback module. Section 4.5: the key is resolved against
  the tree by the resolver of section 4.3; in the resolved leaf every named placeholder
  is replaced by the matching entry of the variables when there is one and is left as
  literal text otherwise; when the key does not resolve, the dot-path itself is returned.
  The delimiters are those of the specification's scenario, two opening and two closing
  braces; the identifier between them is taken to be a non-empty run of letters, digits
  and underscores.
\<close>

definition is_identifier_char :: "char \<Rightarrow> bool" where
  "is_identifier_char c =
     (c \<in> set ''abcdefghijklmnopqrstuvwxyzABCDEFGHIJKLMNOPQRSTUVWXYZ0123456789_'')"

definition placeholder_at :: "string \<Rightarrow> (string \<times> string) option" where
  "placeholder_at s =
     (if take 2 s = ''{{'' then
        (let name = takeWhile is_identifier_char (drop 2 s);
             after = dropWhile is_identifier_char (drop 2 s)
         in if name \<noteq> [] \<and> take 2 after = ''}}'' then Some (name, drop 2 after) else None)
      else None)"

function interpolate :: "(string \<rightharpoonup> string) \<Rightarrow> string \<Rightarrow> string" where
  "interpolate variables [] = []"
| "interpolate variables (c # cs) =
     (case placeholder_at (c # cs) of
        Some (name, rest) \<Rightarrow>
          (case variables name of
             Some v \<Rightarrow> v
           | None \<Rightarrow> ''{{'' @ name @ ''}}'') @ interpolate variables rest
      | None \<Rightarrow> c # interpolate variables cs)"
  by pat_completeness auto
termination
proof (relation "measure (\<lambda>(variables, s). length s)")
  fix variables :: "string \<rightharpoonup> string" and c cs x name rest
  assume "placeholder_at (c # cs) = Some x" and "(name, rest) = x"
  then have rest: "rest = drop 2 (dropWhile is_identifier_char (drop 2 (c # cs)))"
    by (auto simp: placeholder_at_def Let_def split: if_splits)
  have "length (dropWhile is_identifier_char (drop 2 (c # cs))) \<le> length (drop 2 (c # cs))"
    by (rule length_dropWhile_le)
  then have "length rest < length (c # cs)"
    unfolding rest by simp
  then show "((variables, rest), (variables, c # cs)) \<in> measure (\<lambda>(variables, s). length s)"
    by simp
qed simp_all

definition createTranslator :: "msg \<Rightarrow> string \<Rightarrow> (string \<rightharpoonup> string) option \<Rightarrow> string" where
  "createTranslator tree dotPath variables =
     (case resolve tree dotPath of
        None \<Rightarrow> dotPath
      | Some leaf \<Rightarrow>
          interpolate (case variables of None \<Rightarrow> Map.empty | Some vs \<Rightarrow> vs) leaf)"

text \<open>A text in which no placeholder starts at any position.\<close>

fun no_placeholder :: "string \<Rightarrow> bool" where
  "no_placeholder [] = True"
| "no_placeholder (c # cs) = (placeholder_at (c # cs) = None \<and> no_placeholder cs)"

text \<open>
  Modelled from the spec: \<open>isValidErrorCode\<close> and the enumeration of error codes are
  defined in the PDF error and type modules, of which only the property test is among the
  sources. Section 4.6: an exact membership test against \<open>allErrorCodes()\<close>. The
  enumeration is a parameter; the test compares the candidate with each member in turn,
  by string equality.
\<close>

fun array_includes :: "string list \<Rightarrow> string \<Rightarrow> bool" where
  "array_includes [] candidate = False"
| "array_includes (code # codes) candidate =
     (if code = candidate then True else array_includes codes candidate)"

definition isValidErrorCode :: "string list \<Rightarrow> string \<Rightarrow> bool" where
  "isValidErrorCode allErrorCodes candidate = array_includes allErrorCodes candidate"


section \<open>Properties of the locale registry\<close>

lemma split_on_not_Nil: "split_on sep p \<noteq> []"
  by (induction p) (auto split: list.splits)

lemma split_on_unfold:
  "split_on sep p = takeWhile (\<lambda>c. c \<noteq> sep) p #
     (case dropWhile (\<lambda>c. c \<noteq> sep) p of [] \<Rightarrow> [] | _ # r \<Rightarrow> split_on sep r)"
  by (induction p) (auto split: list.splits simp: split_on_not_Nil)

lemma segments_skip_sep:
  "filter (\<lambda>s. s \<noteq> []) (split_on sep (replicate n sep @ q)) =
   filter (\<lambda>s. s \<noteq> []) (split_on sep q)"
  by (induction n) auto

lemma segments_first:
  assumes "q \<noteq> []" "hd q \<noteq> sep"
  shows "\<exists>more. filter (\<lambda>s. s \<noteq> []) (split_on sep q) = takeWhile (\<lambda>c. c \<noteq> sep) q # more"
proof -
  from assms have "takeWhile (\<lambda>c. c \<noteq> sep) q \<noteq> []" by (cases q) auto
  then show ?thesis by (subst split_on_unfold) simp
qed

lemma leading_slashes: "takeWhile (\<lambda>c. c = sep) p = replicate (length (takeWhile (\<lambda>c. c = sep) p)) sep"
  by (induction p) auto

text \<open>
  The first segment that is not empty is what stands between the leading slashes and the
  next slash.
\<close>

lemma getLocaleFromPath_alt:
  "getLocaleFromPath p =
     (let q = dropWhile (\<lambda>c. c = CHR ''/'') p; seg = takeWhile (\<lambda>c. c \<noteq> CHR ''/'') q
      in if q \<noteq> [] \<and> seg \<in> set locales then Some seg else None)"
proof -
  define n where "n = length (takeWhile (\<lambda>c. c = CHR ''/'') p)"
  define q where "q = dropWhile (\<lambda>c. c = CHR ''/'') p"
  have tw: "takeWhile (\<lambda>c. c = CHR ''/'') p = replicate n CHR ''/''"
    unfolding n_def by (rule leading_slashes)
  have p: "p = replicate n CHR ''/'' @ q"
    unfolding q_def tw [symmetric] by simp
  have segs: "filter (\<lambda>s. s \<noteq> []) (split_on CHR ''/'' p) =
      filter (\<lambda>s. s \<noteq> []) (split_on CHR ''/'' q)"
    by (subst p) (rule segments_skip_sep)
  show ?thesis
  proof (cases "q = []")
    case True
    then show ?thesis
      using segs by (simp add: getLocaleFromPath_def q_def [symmetric])
  next
    case False
    have "hd q \<noteq> CHR ''/''"
      using False hd_dropWhile [of "\<lambda>c. c = CHR ''/''" p] by (simp add: q_def)
    from segments_first [OF False this] obtain more where
      "filter (\<lambda>s. s \<noteq> []) (split_on CHR ''/'' q) = takeWhile (\<lambda>c. c \<noteq> CHR ''/'') q # more" ..
    then show ?thesis
      using False segs by (simp add: getLocaleFromPath_def q_def [symmetric] isValidLocale_def)
  qed
qed

lemma locales_no_slash: "l \<in> set locales \<Longrightarrow> l \<noteq> [] \<and> CHR ''/'' \<notin> set l"
  by (auto simp: locales_def)

lemma locale_code_in_locales: "locale_code l \<in> set locales"
  by (cases l) (simp_all add: locales_def)

lemma first_segment_iff:
  "getLocaleFromPath p = Some l \<longleftrightarrow>
     l \<in> set locales \<and>
     (\<exists>n rest. p = replicate n CHR ''/'' @ l @ rest \<and> (rest = [] \<or> hd rest = CHR ''/''))"
  (is "?L \<longleftrightarrow> ?R")
proof
  assume L: ?L
  define q where "q = dropWhile (\<lambda>c. c = CHR ''/'') p"
  define n where "n = length (takeWhile (\<lambda>c. c = CHR ''/'') p)"
  have tw: "takeWhile (\<lambda>c. c = CHR ''/'') p = replicate n CHR ''/''"
    unfolding n_def by (rule leading_slashes)
  from L have l: "l = takeWhile (\<lambda>c. c \<noteq> CHR ''/'') q" and mem: "l \<in> set locales"
    by (auto simp: getLocaleFromPath_alt Let_def q_def split: if_splits)
  have "p = replicate n CHR ''/'' @ l @ dropWhile (\<lambda>c. c \<noteq> CHR ''/'') q"
    unfolding l tw [symmetric] q_def by simp
  moreover have "dropWhile (\<lambda>c. c \<noteq> CHR ''/'') q = [] \<or>
      hd (dropWhile (\<lambda>c. c \<noteq> CHR ''/'') q) = CHR ''/''"
    using hd_dropWhile [of "\<lambda>c. c \<noteq> CHR ''/''" q] by auto
  ultimately show ?R using mem by blast
next
  assume R: ?R
  then obtain n rest where mem: "l \<in> set locales"
    and p: "p = replicate n CHR ''/'' @ l @ rest" and rest: "rest = [] \<or> hd rest = CHR ''/''"
    by blast
  from locales_no_slash [OF mem] have ne: "l \<noteq> []" and ns: "CHR ''/'' \<notin> set l" by auto
  then have hd: "hd l \<noteq> CHR ''/''" by (cases l) auto
  have dw: "dropWhile (\<lambda>c. c = CHR ''/'') p = l @ rest"
    unfolding p using ne hd by (induction n) (auto simp: dropWhile_append3 neq_Nil_conv)
  have all: "\<forall>c\<in>set l. c \<noteq> CHR ''/''" using ns by auto
  have tw: "takeWhile (\<lambda>c. c \<noteq> CHR ''/'') (l @ rest) = l"
    using all rest by (cases rest) (simp_all add: takeWhile_tail)
  show ?L
    using mem ne by (simp add: getLocaleFromPath_alt dw tw)
qed

text \<open>
  Claim C9. \<open>getLocaleFromPath\<close> returns a locale exactly when the path is some leading
  slashes, then one of the ten supported codes in full, then the end of the path or a
  slash; it returns none otherwise. A segment that is a proper prefix of a code, or a code
  with more characters after it, is not taken for that code: \<open>zh-T\<close>, \<open>zh-TWx\<close>, \<open>z\<close> and
  \<open>zh-tw\<close> yield none, while \<open>zh\<close> and \<open>zh-TW\<close> yield themselves.
\<close>

theorem getLocaleFromPath_exact:
  "(getLocaleFromPath p = Some l \<longleftrightarrow>
      l \<in> set locales \<and>
      (\<exists>n rest. p = replicate n CHR ''/'' @ l @ rest \<and> (rest = [] \<or> hd rest = CHR ''/'')))
   \<and> length locales = 10
   \<and> getLocaleFromPath ''/zh/about'' = Some ''zh''
   \<and> getLocaleFromPath ''/zh-TW/about'' = Some ''zh-TW''
   \<and> getLocaleFromPath ''/zh-T/about'' = None
   \<and> getLocaleFromPath ''/zh-TWx/about'' = None
   \<and> getLocaleFromPath ''/z/about'' = None
   \<and> getLocaleFromPath ''/zh-tw/about'' = None"
proof (intro conjI)
  show "getLocaleFromPath p = Some l \<longleftrightarrow>
      l \<in> set locales \<and>
      (\<exists>n rest. p = replicate n CHR ''/'' @ l @ rest \<and> (rest = [] \<or> hd rest = CHR ''/''))"
    by (rule first_segment_iff)
  show "length locales = 10"
    by (simp add: locales_def)
qed (simp_all add: getLocaleFromPath_alt locales_def)

theorem getLocaleFromPath_exact_witness:
  "getLocaleFromPath ''//zh-TW/tools/merge'' = Some ''zh-TW''"
proof -
  have "''zh-TW'' \<in> set locales"
    by (simp add: locales_def)
  moreover have "''//zh-TW/tools/merge'' = replicate 2 CHR ''/'' @ ''zh-TW'' @ ''/tools/merge''"
    by (simp add: numeral_2_eq_2)
  moreover have "''/tools/merge'' = [] \<or> hd ''/tools/merge'' = CHR ''/''"
    by simp
  ultimately show ?thesis
    using getLocaleFromPath_exact [of "''//zh-TW/tools/merge''" "''zh-TW''"] by blast
qed

text \<open>
  What \<open>getLocalizedPath\<close> returns: for the empty path and for a path that begins with a
  slash, a slash, the code of the target locale, and then nothing or a slash; for any
  other path, the code immediately followed by the path.
\<close>

lemma getLocalizedPath_absolute:
  assumes "p = [] \<or> hd p = CHR ''/''"
  shows "\<exists>rest. getLocalizedPath p l = ''/'' @ locale_code l @ rest \<and>
           (rest = [] \<or> hd rest = CHR ''/'')"
proof (cases p)
  case Nil
  then show ?thesis
    by (simp add: getLocalizedPath_def remove_locale_prefix_def collapse_leading_slashes_def)
next
  case (Cons c cs)
  with assms have c: "c = CHR ''/''" by simp
  have "\<exists>after. remove_locale_prefix p = CHR ''/'' # after"
    using Cons c by (simp add: remove_locale_prefix_def split: option.splits)
  then obtain after where "remove_locale_prefix p = CHR ''/'' # after" ..
  then show ?thesis
    by (simp add: getLocalizedPath_def collapse_leading_slashes_def)
qed

lemma getLocalizedPath_relative:
  assumes "p \<noteq> []" "hd p \<noteq> CHR ''/''"
  shows "getLocalizedPath p l = ''/'' @ locale_code l @ p"
  using assms
  by (cases p) (auto simp: getLocalizedPath_def remove_locale_prefix_def collapse_leading_slashes_def)

text \<open>
  The round trip holds for the empty path and for every path that begins with a slash.
\<close>

lemma roundtrip_absolute:
  assumes "p = [] \<or> hd p = CHR ''/''"
  shows "getLocaleFromPath (getLocalizedPath p l) = Some (locale_code l)"
proof -
  from getLocalizedPath_absolute [OF assms] obtain rest where
    "getLocalizedPath p l = replicate 1 CHR ''/'' @ locale_code l @ rest"
    and "rest = [] \<or> hd rest = CHR ''/''"
    by auto
  then show ?thesis
    unfolding first_segment_iff using locale_code_in_locales by blast
qed

text \<open>
  It fails for every other path: the first segment of the result is the code with the
  beginning of the path appended.
\<close>

lemma no_roundtrip_relative:
  assumes "p \<noteq> []" "hd p \<noteq> CHR ''/''"
  shows "getLocaleFromPath (getLocalizedPath p l) \<noteq> Some (locale_code l)"
proof
  assume "getLocaleFromPath (getLocalizedPath p l) = Some (locale_code l)"
  then obtain n rest where
    eq: "''/'' @ locale_code l @ p = replicate n CHR ''/'' @ locale_code l @ rest"
    and rest: "rest = [] \<or> hd rest = CHR ''/''"
    unfolding first_segment_iff getLocalizedPath_relative [OF assms] by blast
  have hd: "hd (locale_code l) \<noteq> CHR ''/''" "locale_code l \<noteq> []" by (cases l; simp)+
  have "n = 1"
  proof (cases n)
    case 0
    with eq hd show ?thesis by (cases "locale_code l") auto
  next
    case (Suc m)
    with eq hd show ?thesis by (cases m; cases "locale_code l") auto
  qed
  with eq have "p = rest" by simp
  with rest assms show False by auto
qed

text \<open>
  Claim C3. The round trip \<open>getLocaleFromPath (getLocalizedPath p l) = l\<close> is claimed for
  every path. The source comments the second replacement as ensuring that the path starts
  with a slash, but the replacement only shortens a run of slashes that is already there.
  For the path \<open>about\<close> and the locale \<open>en\<close> the result is \<open>/enabout\<close>, from which no
  locale is extracted.
\<close>

theorem getLocalizedPath_relative_path_defect:
  "getLocalizedPath ''about'' En = ''/enabout''
   \<and> getLocaleFromPath (getLocalizedPath ''about'' En) = None
   \<and> getLocaleFromPath (getLocalizedPath ''-TW'' Zh) = Some ''zh-TW''"
  by (simp add: getLocalizedPath_def remove_locale_prefix_def collapse_leading_slashes_def
      getLocaleFromPath_alt locales_def)

section \<open>Properties of the nested key lookup\<close>

lemma walk_keys_total: "\<exists>r. walk_keys v ks = Inr r"
proof (induction ks arbitrary: v)
  case Nil
  show ?case by simp
next
  case (Cons k ks)
  show ?case
  proof (cases v)
    case (JArr xs)
    with Cons [of "indexed_property xs k"] show ?thesis by simp
  next
    case (JObj props)
    with Cons [of "case map_of props k of None \<Rightarrow> JUndefined | Some v \<Rightarrow> v"]
    show ?thesis by simp
  qed simp_all
qed

lemma map_of_js_of:
  "map_of (map (\<lambda>(k, t). (k, js_of t)) entries) k = map_option js_of (map_of entries k)"
  by (induction entries) auto

lemma walk_keys_undefined: "walk_keys JUndefined ks = Inr None"
  by (cases ks) simp_all

lemma walk_keys_js_of: "walk_keys (js_of t) ks = Inr (resolve_segments t ks)"
proof (induction t ks rule: resolve_segments.induct)
  case (4 entries k ks)
  then show ?case
    by (cases "map_of entries k") (simp_all add: map_of_js_of walk_keys_undefined)
qed simp_all

text \<open>
  Claim C4. \<open>getNestedValue\<close> never throws, whatever value and path it is given. When
  segments remain and the current value is a string (the path continues past a leaf) or
  the segment is absent from the current object, the result is none; after the last
  segment the result is the current value exactly when that value is a string, with no
  coercion of anything else. On the stored form of a message tree it therefore returns
  what the resolver of the specification returns. On the tree \<open>{a: {b: "x"}}\<close> the path
  \<open>a.b.c\<close> gives none and \<open>a.b\<close> gives \<open>x\<close>.
\<close>

theorem getNestedValue_resolves:
  "(\<forall>obj path. \<exists>r. getNestedValue obj path = Inr r)
   \<and> (\<forall>s k ks. walk_keys (JStr s) (k # ks) = Inr None)
   \<and> (\<forall>props k ks. map_of props k = None \<longrightarrow> walk_keys (JObj props) (k # ks) = Inr None)
   \<and> (\<forall>v s. walk_keys v [] = Inr (Some s) \<longleftrightarrow> v = JStr s)
   \<and> (\<forall>tree path. getNestedValue (js_of tree) path = Inr (resolve tree path))
   \<and> getNestedValue (JObj [(''a'', JObj [(''b'', JStr ''x'')])]) ''a.b.c'' = Inr None
   \<and> getNestedValue (JObj [(''a'', JObj [(''b'', JStr ''x'')])]) ''a.b'' = Inr (Some ''x'')"
proof (intro conjI allI impI)
  show "\<exists>r. getNestedValue obj path = Inr r" for obj path
    unfolding getNestedValue_def by (rule walk_keys_total)
  show "walk_keys (JObj props) (k # ks) = Inr None" if "map_of props k = None" for props k ks
    using that by (simp add: walk_keys_undefined)
  show "walk_keys v [] = Inr (Some s) \<longleftrightarrow> v = JStr s" for v s
    by (cases v) auto
  show "getNestedValue (js_of tree) path = Inr (resolve tree path)" for tree path
    unfolding getNestedValue_def resolve_def by (rule walk_keys_js_of)
  show "getNestedValue (JObj [(''a'', JObj [(''b'', JStr ''x'')])]) ''a.b.c'' = Inr None"
    by (simp add: getNestedValue_def)
  show "getNestedValue (JObj [(''a'', JObj [(''b'', JStr ''x'')])]) ''a.b'' = Inr (Some ''x'')"
    by (simp add: getNestedValue_def)
qed simp

theorem getNestedValue_resolves_witness:
  "map_of [(''fileTooLarge'', JStr ''Too big'')] ''networkError'' = None
   \<and> walk_keys (JObj [(''fileTooLarge'', JStr ''Too big'')]) [''networkError'', ''hint''] = Inr None
   \<and> getNestedValue (JObj [(''errors'', JObj [(''fileTooLarge'', JStr ''Too big'')])])
        ''errors.fileTooLarge'' = Inr (Some ''Too big'')"
proof -
  have absent: "map_of [(''fileTooLarge'', JStr ''Too big'')] ''networkError'' = None"
    by simp
  have "walk_keys (JObj [(''fileTooLarge'', JStr ''Too big'')]) [''networkError'', ''hint'']
      = Inr None"
    using getNestedValue_resolves absent by blast
  moreover have "getNestedValue
      (js_of (Node [(''errors'', Node [(''fileTooLarge'', Leaf ''Too big'')])]))
      ''errors.fileTooLarge''
      = Inr (resolve (Node [(''errors'', Node [(''fileTooLarge'', Leaf ''Too big'')])])
          ''errors.fileTooLarge'')"
    using getNestedValue_resolves by blast
  ultimately show ?thesis
    using absent by (simp add: resolve_def)
qed

section \<open>Properties of the tool content lookup\<close>

text \<open>
  Claim C10. \<open>getToolContent\<close> follows one fixed order. For \<open>zh-TW\<close> the table consulted is
  the Simplified Chinese one, so the result is that of \<open>zh\<close>; for every other locale it is
  the locale's own table. When that table has no value for the tool id, the result is
  what the English table has, and the result is undefined only when the English table has
  none either.
\<close>

theorem getToolContent_fallback_order:
  "getToolContent T ZhTW toolId = getToolContent T Zh toolId
   \<and> getToolContent T ZhTW toolId =
       (case table_read T (toolContentZh T) toolId of
          Some c \<Rightarrow> Some c | None \<Rightarrow> table_read T (toolContentEn T) toolId)
   \<and> getToolContent T En toolId = table_read T (toolContentEn T) toolId
   \<and> getToolContent T Ja toolId =
       (case table_read T (toolContentJa T) toolId of
          Some c \<Rightarrow> Some c | None \<Rightarrow> table_read T (toolContentEn T) toolId)
   \<and> getToolContent T Ko toolId =
       (case table_read T (toolContentKo T) toolId of
          Some c \<Rightarrow> Some c | None \<Rightarrow> table_read T (toolContentEn T) toolId)
   \<and> getToolContent T Es toolId =
       (case table_read T (toolContentEs T) toolId of
          Some c \<Rightarrow> Some c | None \<Rightarrow> table_read T (toolContentEn T) toolId)
   \<and> getToolContent T Fr toolId =
       (case table_read T (toolContentFr T) toolId of
          Some c \<Rightarrow> Some c | None \<Rightarrow> table_read T (toolContentEn T) toolId)
   \<and> getToolContent T De toolId =
       (case table_read T (toolContentDe T) toolId of
          Some c \<Rightarrow> Some c | None \<Rightarrow> table_read T (toolContentEn T) toolId)
   \<and> getToolContent T Pt toolId =
       (case table_read T (toolContentPt T) toolId of
          Some c \<Rightarrow> Some c | None \<Rightarrow> table_read T (toolContentEn T) toolId)
   \<and> getToolContent T Ar toolId =
       (case table_read T (toolContentAr T) toolId of
          Some c \<Rightarrow> Some c | None \<Rightarrow> table_read T (toolContentEn T) toolId)
   \<and> (getToolContent T locale toolId = None \<longrightarrow> table_read T (toolContentEn T) toolId = None)"
proof (intro conjI impI)
  assume "getToolContent T locale toolId = None"
  then show "table_read T (toolContentEn T) toolId = None"
    by (cases "locale") (simp_all add: getToolContent_def contentMap_def split: option.splits)
qed (simp_all add: getToolContent_def contentMap_def split: option.splits)

theorem getToolContent_fallback_order_witness:
  "getToolContent
     \<lparr>toolContentEn = [''merge-pdf'' \<mapsto> ''Merge PDF'', ''split-pdf'' \<mapsto> ''Split PDF''],
      toolContentJa = Map.empty, toolContentKo = Map.empty, toolContentEs = Map.empty,
      toolContentFr = Map.empty, toolContentDe = Map.empty,
      toolContentZh = [''merge-pdf'' \<mapsto> ''zh: merge''],
      toolContentPt = Map.empty, toolContentAr = Map.empty,
      objectPrototype = Map.empty\<rparr> ZhTW ''rotate-pdf'' = None
   \<and> table_read
     \<lparr>toolContentEn = [''merge-pdf'' \<mapsto> ''Merge PDF'', ''split-pdf'' \<mapsto> ''Split PDF''],
      toolContentJa = Map.empty, toolContentKo = Map.empty, toolContentEs = Map.empty,
      toolContentFr = Map.empty, toolContentDe = Map.empty,
      toolContentZh = [''merge-pdf'' \<mapsto> ''zh: merge''],
      toolContentPt = Map.empty, toolContentAr = Map.empty,
      objectPrototype = Map.empty\<rparr>
     [''merge-pdf'' \<mapsto> ''Merge PDF'', ''split-pdf'' \<mapsto> ''Split PDF''] ''rotate-pdf'' = None
   \<and> getToolContent
     \<lparr>toolContentEn = [''merge-pdf'' \<mapsto> ''Merge PDF'', ''split-pdf'' \<mapsto> ''Split PDF''],
      toolContentJa = Map.empty, toolContentKo = Map.empty, toolContentEs = Map.empty,
      toolContentFr = Map.empty, toolContentDe = Map.empty,
      toolContentZh = [''merge-pdf'' \<mapsto> ''zh: merge''],
      toolContentPt = Map.empty, toolContentAr = Map.empty,
      objectPrototype = Map.empty\<rparr> ZhTW ''merge-pdf'' = Some ''zh: merge''
   \<and> getToolContent
     \<lparr>toolContentEn = [''merge-pdf'' \<mapsto> ''Merge PDF'', ''split-pdf'' \<mapsto> ''Split PDF''],
      toolContentJa = Map.empty, toolContentKo = Map.empty, toolContentEs = Map.empty,
      toolContentFr = Map.empty, toolContentDe = Map.empty,
      toolContentZh = [''merge-pdf'' \<mapsto> ''zh: merge''],
      toolContentPt = Map.empty, toolContentAr = Map.empty,
      objectPrototype = Map.empty\<rparr> ZhTW ''split-pdf'' = Some ''Split PDF''"
  (is "getToolContent ?T ZhTW ''rotate-pdf'' = None \<and> _ \<and> _ \<and> _")
proof -
  have none: "getToolContent ?T ZhTW ''rotate-pdf'' = None"
    by (simp add: getToolContent_def contentMap_def table_read_def)
  have en: "table_read ?T (toolContentEn ?T) ''rotate-pdf'' = None"
    using getToolContent_fallback_order [of ?T "''rotate-pdf''" ZhTW] none by blast
  have zh: "getToolContent ?T ZhTW ''merge-pdf'' = Some ''zh: merge''"
    using getToolContent_fallback_order [of ?T "''merge-pdf''" ZhTW, THEN conjunct2, THEN conjunct1]
    by (simp add: table_read_def)
  have split: "getToolContent ?T ZhTW ''split-pdf'' = Some ''Split PDF''"
    using getToolContent_fallback_order [of ?T "''split-pdf''" ZhTW, THEN conjunct2, THEN conjunct1]
    by (simp add: table_read_def)
  from none en zh split show ?thesis by simp
qed

section \<open>Properties of the fallback merge\<close>

lemma map_of_merged_primary:
  "map_of (map (\<lambda>(k, v). (k, f k v)) primary @ rest) k =
     (case map_of primary k of Some v \<Rightarrow> Some (f k v) | None \<Rightarrow> map_of rest k)"
  by (induction primary) auto

lemma map_of_base_only:
  "map_of (filter (\<lambda>(k, b). P k) base) k = (if P k then map_of base k else None)"
  by (induction base) auto

lemma child_mergeWithFallback:
  "child (mergeWithFallback (Node primary) (Node base)) k =
     (case map_of primary k of
        None \<Rightarrow> map_of base k
      | Some v \<Rightarrow> Some (case map_of base k of Some b \<Rightarrow> mergeWithFallback v b | None \<Rightarrow> v))"
  by (simp add: map_of_merged_primary map_of_base_only del: map_of_append split: option.splits)

lemma keys_of_mergeWithFallback:
  "keys_of (mergeWithFallback (Node primary) (Node base)) = keys_of (Node primary) \<union> keys_of (Node base)"
proof -
  have "fst ` {x \<in> set base. case x of (k, b) \<Rightarrow> map_of primary k = None} \<union> fst ` set primary
        = fst ` set base \<union> fst ` set primary"
    by (auto simp: map_of_eq_None_iff image_iff)
  moreover have "fst ` (\<lambda>(k, v). (k, case map_of base k of None \<Rightarrow> v | Some b \<Rightarrow> mergeWithFallback v b)) ` set primary
        = fst ` set primary"
    by (force simp: image_iff)
  ultimately show ?thesis
    by (simp add: image_Un Un_commute)
qed

lemma mergeWithFallback_idem: "wf_msg t \<Longrightarrow> mergeWithFallback t t = t"
proof (induction t)
  case (Leaf s)
  show ?case by simp
next
  case (Node entries)
  from Node.prems have dist: "distinct (map fst entries)"
    and wf: "\<And>k v. (k, v) \<in> set entries \<Longrightarrow> wf_msg v"
    by auto
  have own: "map (\<lambda>(k, v). (k, case map_of entries k of Some b \<Rightarrow> mergeWithFallback v b | None \<Rightarrow> v)) entries
      = entries"
  proof (rule map_idI)
    fix x assume x: "x \<in> set entries"
    obtain k v where kv: "x = (k, v)" by (cases x)
    with x dist have "map_of entries k = Some v" by simp
    moreover have "mergeWithFallback v v = v"
      using Node.IH [of x v] x kv wf by auto
    ultimately show "(case x of (k, v) \<Rightarrow>
        (k, case map_of entries k of Some b \<Rightarrow> mergeWithFallback v b | None \<Rightarrow> v)) = x"
      using kv by simp
  qed
  have none: "filter (\<lambda>(k, b). map_of entries k = None) entries = []"
    by (auto simp: filter_empty_conv map_of_eq_None_iff image_iff)
  show ?case
    by (simp add: own none)
qed

lemma wf_mergeWithFallback: "wf_msg primary \<Longrightarrow> wf_msg base \<Longrightarrow> wf_msg (mergeWithFallback primary base)"
proof (induction primary base rule: mergeWithFallback.induct)
  case (1 primary base)
  let ?f = "\<lambda>(k, v). (k, case map_of base k of Some b \<Rightarrow> mergeWithFallback v b | None \<Rightarrow> v)"
  let ?only = "filter (\<lambda>(k, b). map_of primary k = None) base"
  from "1.prems" have dp: "distinct (map fst primary)" and db: "distinct (map fst base)"
    and wp: "\<And>k v. (k, v) \<in> set primary \<Longrightarrow> wf_msg v"
    and wb: "\<And>k v. (k, v) \<in> set base \<Longrightarrow> wf_msg v"
    by auto
  have fst_f: "map fst (map ?f primary) = map fst primary"
    by (induction primary) auto
  have "distinct (map fst ?only)"
    using db by (simp add: distinct_map_filter)
  moreover have "fst ` set primary \<inter> fst ` set ?only = {}"
    by (auto simp: map_of_eq_None_iff image_iff)
  ultimately have dist: "distinct (map fst (map ?f primary @ ?only))"
    using dp by (simp add: fst_f del: map_map)
  have sub: "wf_msg t" if "(k, t) \<in> set (map ?f primary @ ?only)" for k t
  proof -
    from that consider v where "(k, v) \<in> set primary"
        "t = (case map_of base k of Some b \<Rightarrow> mergeWithFallback v b | None \<Rightarrow> v)"
      | "(k, t) \<in> set base"
      by auto
    then show ?thesis
    proof cases
      case 1
      show ?thesis
      proof (cases "map_of base k")
        case None
        with 1 wp show ?thesis by simp
      next
        case (Some b)
        then have "(k, b) \<in> set base" by (rule map_of_SomeD)
        then have "wf_msg b" by (rule wb)
        with "1.IH" [of "(k, v)" k v b] 1 Some wp show ?thesis by simp
      qed
    next
      case 2
      then show ?thesis by (rule wb)
    qed
  qed
  show ?case
    using dist sub by (simp del: map_append map_map) blast
qed simp_all

lemma has_key_path_mergeWithFallback:
  "has_key_path (mergeWithFallback primary base) ks \<longleftrightarrow>
     has_key_path primary ks \<or> (has_key_path base ks \<and> \<not> beneath_leaf primary ks)"
proof (induction primary base arbitrary: ks rule: mergeWithFallback.induct)
  case (1 primary base)
  show ?case
  proof (cases ks)
    case Nil
    then show ?thesis by (simp add: has_key_path_def)
  next
    case (Cons k ks')
    have ch: "map_of (map (\<lambda>(k, v). (k, case map_of base k of None \<Rightarrow> v | Some b \<Rightarrow> mergeWithFallback v b)) primary
                @ filter (\<lambda>(k, b). map_of primary k = None) base) k =
        (case map_of primary k of
           None \<Rightarrow> map_of base k
         | Some v \<Rightarrow> Some (case map_of base k of Some b \<Rightarrow> mergeWithFallback v b | None \<Rightarrow> v))"
      using child_mergeWithFallback [of primary base k] by simp
    show ?thesis
    proof (cases "map_of primary k")
      case None
      then show ?thesis
        using Cons ch by (simp add: has_key_path_def del: map_of_append)
    next
      case (Some v)
      then have mem: "(k, v) \<in> set primary" by (rule map_of_SomeD)
      show ?thesis
      proof (cases "map_of base k")
        case None
        then show ?thesis
          using Cons ch Some by (simp add: has_key_path_def del: map_of_append)
      next
        case (Some b)
        from "1.IH" [OF mem refl Some, of ks']
        show ?thesis
          using Cons ch Some \<open>map_of primary k = Some v\<close>
          by (simp add: has_key_path_def del: map_of_append)
      qed
    qed
  qed
next
  fix v base ks
  show "has_key_path (mergeWithFallback (Leaf v) base) ks \<longleftrightarrow>
      has_key_path (Leaf v) ks \<or> (has_key_path base ks \<and> \<not> beneath_leaf (Leaf v) ks)"
    by (cases ks) (simp_all add: has_key_path_def)
next
  fix primary v ks
  show "has_key_path (mergeWithFallback primary (Leaf v)) ks \<longleftrightarrow>
      has_key_path primary ks \<or> (has_key_path (Leaf v) ks \<and> \<not> beneath_leaf primary ks)"
    by (cases ks; cases primary) (simp_all add: has_key_path_def)
qed

lemma stored_extend:
  "stored h v t \<Longrightarrow> stored (h @ ext) v t"
  "stored_properties h props es \<Longrightarrow> stored_properties (h @ ext) props es"
  by (induction h v t and h props es rule: stored_stored_properties.induct)
     (simp_all add: nth_append)

lemma merge_heap_extends:
  "mergeWithFallback_heap fuel h a b = Some (h', r) \<Longrightarrow>
     (\<exists>ext. h' = h @ ext) \<and> length h \<le> r \<and> r < length h'"
  "merge_properties fuel h props base = Some (h', ms) \<Longrightarrow> \<exists>ext. h' = h @ ext"
proof (induction fuel h a b and fuel h props base arbitrary: h' r and h' ms
    rule: mergeWithFallback_heap_merge_properties.induct)
  case (1 h a b)
  then show ?case by simp
next
  case (2 fuel h a b)
  from "2.prems" obtain h1 merged where ok: "a < length h \<and> b < length h"
    and mp: "merge_properties fuel h (h ! a) (h ! b) = Some (h1, merged)"
    and res: "h' = h1 @ [merged @ filter (\<lambda>(k, v). map_of (h ! a) k = None) (h ! b)]"
      "r = length h1"
    by (auto split: if_splits option.splits)
  from "2.IH" [OF ok mp] obtain ext where "h1 = h @ ext" ..
  with res show ?case by simp
next
  case (3 fuel h base)
  then show ?case by simp
next
  case (4 fuel h k v rest base)
  show ?case
  proof (cases "both_objects v (map_of base k)")
    case None
    with "4.prems" obtain merged where
      "merge_properties fuel h rest base = Some (h', merged)"
      by (auto split: option.splits)
    from "4.IH"(1) [OF None this] show ?thesis .
  next
    case (Some x)
    obtain pa ba where x: "x = (pa, ba)" by (cases x)
    with Some "4.prems" obtain h1 r1 merged where
      m1: "mergeWithFallback_heap fuel h pa ba = Some (h1, r1)"
      and m2: "merge_properties fuel h1 rest base = Some (h', merged)"
      by (auto split: option.splits)
    from "4.IH"(2) [OF Some x [symmetric] m1] obtain e1 where e1: "h1 = h @ e1" by blast
    from "4.IH"(3) [OF Some x [symmetric] m1 refl m2] obtain e2 where "h' = h1 @ e2" ..
    with e1 show ?thesis by simp
  qed
qed

lemma stored_properties_lookup:
  "stored_properties h props es \<Longrightarrow>
     (map_of props k = None \<and> map_of es k = None) \<or>
     (\<exists>v t. map_of props k = Some v \<and> map_of es k = Some t \<and> stored h v t)"
proof (induction props arbitrary: es)
  case Nil
  then show ?case by (cases es) simp_all
next
  case (Cons p props)
  obtain k1 v1 where p: "p = (k1, v1)" by (cases p)
  from Cons.prems p obtain t1 es' where es: "es = (k1, t1) # es'"
    and st: "stored h v1 t1" and rest: "stored_properties h props es'"
    by (cases es) auto
  from Cons.IH [OF rest] show ?case
    using p es st by auto
qed

lemma stored_properties_append:
  "stored_properties h xs es \<Longrightarrow> stored_properties h ys fs \<Longrightarrow>
     stored_properties h (xs @ ys) (es @ fs)"
proof (induction xs arbitrary: es)
  case Nil
  then show ?case by (cases es) simp_all
next
  case (Cons x xs)
  then show ?case by (cases es; cases x) auto
qed

lemma stored_properties_filter:
  "stored_properties h props es \<Longrightarrow>
     stored_properties h (filter (\<lambda>(k, v). P k) props) (filter (\<lambda>(k, t). P k) es)"
proof (induction props arbitrary: es)
  case Nil
  then show ?case by (cases es) simp_all
next
  case (Cons x xs)
  then show ?case by (cases es; cases x) auto
qed

lemma depth_entry: "(k, t) \<in> set entries \<Longrightarrow> depth t \<le> foldr (\<lambda>(k, t) m. max (depth t) m) entries 0"
  by (induction entries) auto

lemma stored_ref_Node: "stored h (HRef a) t \<Longrightarrow> \<exists>es. t = Node es"
  by (cases t) simp_all

lemma stored_str_Leaf: "stored h (HStr s) t \<Longrightarrow> t = Leaf s"
  by (cases t) simp_all

lemma merge_heap_correct:
  "stored h (HRef a) (Node p) \<Longrightarrow> stored h (HRef b) (Node q) \<Longrightarrow> depth (Node p) \<le> fuel \<Longrightarrow>
     \<exists>h' r. mergeWithFallback_heap fuel h a b = Some (h', r) \<and>
            stored h' (HRef r) (mergeWithFallback (Node p) (Node q))"
  "stored_properties h props pes \<Longrightarrow> stored_properties h base qs \<Longrightarrow>
     (\<forall>(k, t) \<in> set pes. depth t \<le> fuel) \<Longrightarrow>
     \<exists>h' ms. merge_properties fuel h props base = Some (h', ms) \<and>
            stored_properties h' ms
              (map (\<lambda>(k, v). (k, case map_of qs k of Some b \<Rightarrow> mergeWithFallback v b | None \<Rightarrow> v)) pes)"
proof (induction fuel h a b and fuel h props base arbitrary: p q and pes qs
    rule: mergeWithFallback_heap_merge_properties.induct)
  case (1 h a b)
  then show ?case by simp
next
  case (2 fuel h a b)
  let ?f = "\<lambda>(k, v). (k, case map_of q k of Some b \<Rightarrow> mergeWithFallback v b | None \<Rightarrow> v)"
  from "2.prems" have ok: "a < length h \<and> b < length h"
    and sa: "stored_properties h (h ! a) p" and sb: "stored_properties h (h ! b) q"
    by simp_all
  have dp: "\<forall>(k, t) \<in> set p. depth t \<le> fuel"
    using "2.prems"(3) depth_entry [of _ _ p] by fastforce
  from "2.IH" [OF ok sa sb dp] obtain h1 ms where
    mp: "merge_properties fuel h (h ! a) (h ! b) = Some (h1, ms)"
    and sm: "stored_properties h1 ms (map ?f p)"
    by blast
  from merge_heap_extends(2) [OF mp] obtain ext where h1: "h1 = h @ ext" ..
  let ?only = "filter (\<lambda>(k, v). map_of (h ! a) k = None) (h ! b)"
  let ?obj = "ms @ ?only"
  let ?h' = "h1 @ [?obj]"
  have keys: "map_of (h ! a) k = None \<longleftrightarrow> map_of p k = None" for k
    using stored_properties_lookup [OF sa, of k] by auto
  have "stored_properties h ?only (filter (\<lambda>(k, t). map_of (h ! a) k = None) q)"
    by (rule stored_properties_filter [OF sb])
  then have so: "stored_properties h ?only (filter (\<lambda>(k, t). map_of p k = None) q)"
    by (simp add: keys)
  have "stored_properties ?h' ?obj (map ?f p @ filter (\<lambda>(k, t). map_of p k = None) q)"
  proof (rule stored_properties_append)
    show "stored_properties ?h' ms (map ?f p)"
      by (rule stored_extend(2) [OF sm])
    from stored_extend(2) [OF so, of "ext @ [?obj]"]
    show "stored_properties ?h' ?only (filter (\<lambda>(k, t). map_of p k = None) q)"
      by (simp add: h1)
  qed
  then have "stored ?h' (HRef (length h1)) (mergeWithFallback (Node p) (Node q))"
    by simp
  moreover have "mergeWithFallback_heap (Suc fuel) h a b = Some (?h', length h1)"
    using ok mp by simp
  ultimately show ?case by blast
next
  case (3 fuel h base)
  then show ?case by (cases pes) simp_all
next
  case (4 fuel h k v rest base)
  let ?f = "\<lambda>(k, v). (k, case map_of qs k of Some b \<Rightarrow> mergeWithFallback v b | None \<Rightarrow> v)"
  from "4.prems"(1) obtain t pes' where pes: "pes = (k, t) # pes'"
    and st: "stored h v t" and sr: "stored_properties h rest pes'"
    by (cases pes) auto
  from "4.prems"(3) pes have dt: "depth t \<le> fuel" and dr: "\<forall>(k, t) \<in> set pes'. depth t \<le> fuel"
    by auto
  note sb = "4.prems"(2)
  show ?case
  proof (cases "both_objects v (map_of base k)")
    case None
    from "4.IH"(1) [OF None sr sb dr] obtain h2 ms where
      mp: "merge_properties fuel h rest base = Some (h2, ms)"
      and sm: "stored_properties h2 ms (map ?f pes')"
      by blast
    from merge_heap_extends(2) [OF mp] obtain ext where h2: "h2 = h @ ext" ..
    have val: "(case map_of qs k of Some b \<Rightarrow> mergeWithFallback t b | None \<Rightarrow> t) = t"
    proof (cases v)
      case (HStr s)
      with st have "t = Leaf s" by (simp add: stored_str_Leaf)
      then show ?thesis by (simp split: option.splits)
    next
      case (HRef pa)
      with st obtain es where t: "t = Node es" using stored_ref_Node by blast
      from stored_properties_lookup [OF sb, of k] None HRef
      have "map_of qs k = None \<or> (\<exists>s. map_of qs k = Some (Leaf s))"
        by (auto simp: both_objects_def split: option.splits hval.splits dest: stored_str_Leaf)
      then show ?thesis using t by auto
    qed
    have "stored h2 v t" using st h2 by (simp add: stored_extend(1))
    with sm val have "stored_properties h2 ((k, v) # ms) (map ?f pes)"
      by (simp add: pes)
    moreover have "merge_properties fuel h ((k, v) # rest) base = Some (h2, (k, v) # ms)"
      using None mp by simp
    ultimately show ?thesis by blast
  next
    case (Some x)
    obtain pa ba where x: "x = (pa, ba)" by (cases x)
    from Some x have v: "v = HRef pa" and mb: "map_of base k = Some (HRef ba)"
      by (auto simp: both_objects_def split: option.splits hval.splits)
    from st v obtain p' where t: "t = Node p'" using stored_ref_Node by blast
    from stored_properties_lookup [OF sb, of k] mb obtain tb where
      mq: "map_of qs k = Some tb" and stb: "stored h (HRef ba) tb"
      by auto
    then obtain q' where tb: "tb = Node q'" using stored_ref_Node by blast
    from "4.IH"(2) [OF Some x [symmetric] st [unfolded v t] stb [unfolded tb] dt [unfolded t]]
    obtain h1 r where m1: "mergeWithFallback_heap fuel h pa ba = Some (h1, r)"
      and s1: "stored h1 (HRef r) (mergeWithFallback (Node p') (Node q'))"
      by blast
    from merge_heap_extends(1) [OF m1] obtain e1 where h1: "h1 = h @ e1" by blast
    have sr1: "stored_properties h1 rest pes'" and sb1: "stored_properties h1 base qs"
      using sr sb h1 by (simp_all add: stored_extend(2))
    from "4.IH"(3) [OF Some x [symmetric] m1 refl sr1 sb1 dr] obtain h2 ms where
      mp: "merge_properties fuel h1 rest base = Some (h2, ms)"
      and sm: "stored_properties h2 ms (map ?f pes')"
      by blast
    from merge_heap_extends(2) [OF mp] obtain e2 where h2: "h2 = h1 @ e2" ..
    have "stored h2 (HRef r) (mergeWithFallback t tb)"
      using s1 h2 t tb by (simp only: stored_extend(1))
    with sm mq have "stored_properties h2 ((k, HRef r) # ms) (map ?f pes)"
      by (simp add: pes)
    moreover have "merge_properties fuel h ((k, v) # rest) base = Some (h2, (k, HRef r) # ms)"
      using Some x m1 mp by simp
    ultimately show ?thesis by blast
  qed
qed

text \<open>
  Claim C2 as stated: the merged result contains every key of both trees. That fails for
  the keys of base that lie beneath a key at which primary holds a leaf: the leaf wins
  and the subtree of base is dropped with its keys. Merging \<open>{errors: "Error"}\<close> over
  \<open>{errors: {networkError: "Network error"}}\<close> loses \<open>errors.networkError\<close>.
\<close>

theorem mergeWithFallback_drops_nested_base_key:
  "has_key_path (Node [(''errors'', Node [(''networkError'', Leaf ''Network error'')])])
     [''errors'', ''networkError'']
   \<and> \<not> has_key_path
       (mergeWithFallback (Node [(''errors'', Leaf ''Error'')])
          (Node [(''errors'', Node [(''networkError'', Leaf ''Network error'')])]))
       [''errors'', ''networkError'']
   \<and> resolve (Node [(''errors'', Node [(''networkError'', Leaf ''Network error'')])])
       ''errors.networkError'' = Some ''Network error''
   \<and> resolve
       (mergeWithFallback (Node [(''errors'', Leaf ''Error'')])
          (Node [(''errors'', Node [(''networkError'', Leaf ''Network error'')])]))
       ''errors.networkError'' = None"
  by (simp add: has_key_path_def resolve_def)

text \<open>
  Claim C2, amended. Merging a well-formed tree with itself yields the same tree. The
  merged tree has the keys of both trees at its top level, and at every depth it has
  exactly the key paths of primary and those key paths of base that do not run on past a
  leaf of primary. Under a key where both sides hold nested trees it holds their merge;
  where primary holds a leaf it holds that leaf; where primary holds a nested tree and
  base a leaf, or only primary has the key, it holds primary's value; where primary lacks
  the key it holds what base has. The merge of two well-formed trees is well formed. On
  objects in memory, a merge that returns leaves every object that was allocated before
  as it was and returns a newly allocated object; given two stored trees and fuel for the
  depth of primary it does return, the new object is the merged tree, and both arguments
  are still the trees they were. Merging \<open>{errors: {fileTooLarge: "Too big"}}\<close> over the
  base of the specification's scenario gives the tree stated there.
\<close>

theorem mergeWithFallback_deep_merge:
  "(wf_msg t \<longrightarrow> mergeWithFallback t t = t)
   \<and> keys_of (mergeWithFallback (Node primary) (Node base)) =
       keys_of (Node primary) \<union> keys_of (Node base)
   \<and> (has_key_path (mergeWithFallback t base_tree) ks \<longleftrightarrow>
        has_key_path t ks \<or> (has_key_path base_tree ks \<and> \<not> beneath_leaf t ks))
   \<and> (child (Node primary) k = Some (Node p) \<and> child (Node base) k = Some (Node b) \<longrightarrow>
        child (mergeWithFallback (Node primary) (Node base)) k =
          Some (mergeWithFallback (Node p) (Node b)))
   \<and> (child (Node primary) k = Some (Leaf s) \<longrightarrow>
        child (mergeWithFallback (Node primary) (Node base)) k = Some (Leaf s))
   \<and> (child (Node primary) k = Some (Node p) \<and> child (Node base) k = Some (Leaf s) \<longrightarrow>
        child (mergeWithFallback (Node primary) (Node base)) k = Some (Node p))
   \<and> (child (Node primary) k = Some v \<and> child (Node base) k = None \<longrightarrow>
        child (mergeWithFallback (Node primary) (Node base)) k = Some v)
   \<and> (child (Node primary) k = None \<longrightarrow>
        child (mergeWithFallback (Node primary) (Node base)) k = child (Node base) k)
   \<and> (wf_msg (Node primary) \<and> wf_msg (Node base) \<longrightarrow>
        wf_msg (mergeWithFallback (Node primary) (Node base)))
   \<and> (mergeWithFallback_heap fuel h a1 a2 = Some (h', r) \<longrightarrow>
        take (length h) h' = h \<and> length h \<le> r \<and> r < length h')
   \<and> (stored h (HRef a1) t \<and> stored h (HRef a2) base_tree \<and> depth t \<le> fuel \<longrightarrow>
        (\<exists>h1 r1. mergeWithFallback_heap fuel h a1 a2 = Some (h1, r1)
           \<and> stored h1 (HRef r1) (mergeWithFallback t base_tree)
           \<and> stored h1 (HRef a1) t \<and> stored h1 (HRef a2) base_tree))
   \<and> mergeWithFallback (Node [(''errors'', Node [(''fileTooLarge'', Leaf ''Too big'')])])
         (Node [(''errors'', Node [(''fileTooLarge'', Leaf ''File too large''),
                                    (''networkError'', Leaf ''Network error'')])])
       = Node [(''errors'', Node [(''fileTooLarge'', Leaf ''Too big''),
                                   (''networkError'', Leaf ''Network error'')])]"
proof (intro conjI impI)
  show "mergeWithFallback t t = t" if "wf_msg t"
    using that by (rule mergeWithFallback_idem)
  show "keys_of (mergeWithFallback (Node primary) (Node base)) =
      keys_of (Node primary) \<union> keys_of (Node base)"
    by (rule keys_of_mergeWithFallback)
  show "has_key_path (mergeWithFallback t base_tree) ks \<longleftrightarrow>
      has_key_path t ks \<or> (has_key_path base_tree ks \<and> \<not> beneath_leaf t ks)"
    by (rule has_key_path_mergeWithFallback)
  show "child (mergeWithFallback (Node primary) (Node base)) k =
      Some (mergeWithFallback (Node p) (Node b))"
    if "child (Node primary) k = Some (Node p) \<and> child (Node base) k = Some (Node b)"
    using that unfolding child_mergeWithFallback by simp
  show "child (mergeWithFallback (Node primary) (Node base)) k = Some (Leaf s)"
    if "child (Node primary) k = Some (Leaf s)"
    using that unfolding child_mergeWithFallback by (simp split: option.splits)
  show "child (mergeWithFallback (Node primary) (Node base)) k = Some (Node p)"
    if "child (Node primary) k = Some (Node p) \<and> child (Node base) k = Some (Leaf s)"
    using that unfolding child_mergeWithFallback by simp
  show "child (mergeWithFallback (Node primary) (Node base)) k = Some v"
    if "child (Node primary) k = Some v \<and> child (Node base) k = None"
    using that unfolding child_mergeWithFallback by simp
  show "child (mergeWithFallback (Node primary) (Node base)) k = child (Node base) k"
    if "child (Node primary) k = None"
    using that unfolding child_mergeWithFallback by simp
  show "wf_msg (mergeWithFallback (Node primary) (Node base))"
    if "wf_msg (Node primary) \<and> wf_msg (Node base)"
    using that wf_mergeWithFallback by blast
  show "take (length h) h' = h" "length h \<le> r" "r < length h'"
    if "mergeWithFallback_heap fuel h a1 a2 = Some (h', r)"
    using merge_heap_extends(1) [OF that] by auto
  show "\<exists>h1 r1. mergeWithFallback_heap fuel h a1 a2 = Some (h1, r1)
      \<and> stored h1 (HRef r1) (mergeWithFallback t base_tree)
      \<and> stored h1 (HRef a1) t \<and> stored h1 (HRef a2) base_tree"
    if asm: "stored h (HRef a1) t \<and> stored h (HRef a2) base_tree \<and> depth t \<le> fuel"
  proof -
    from asm obtain p q where t: "t = Node p" and b: "base_tree = Node q"
      using stored_ref_Node by blast
    from merge_heap_correct(1) [of h a1 p a2 q fuel] asm t b obtain h1 r1 where
      m: "mergeWithFallback_heap fuel h a1 a2 = Some (h1, r1)"
      and s: "stored h1 (HRef r1) (mergeWithFallback t base_tree)"
      by blast
    from merge_heap_extends(1) [OF m] obtain ext where "h1 = h @ ext" by blast
    with asm have "stored h1 (HRef a1) t" "stored h1 (HRef a2) base_tree"
      by (simp_all add: stored_extend(1))
    with m s show ?thesis by blast
  qed
  show "mergeWithFallback (Node [(''errors'', Node [(''fileTooLarge'', Leaf ''Too big'')])])
         (Node [(''errors'', Node [(''fileTooLarge'', Leaf ''File too large''),
                                    (''networkError'', Leaf ''Network error'')])])
       = Node [(''errors'', Node [(''fileTooLarge'', Leaf ''Too big''),
                                   (''networkError'', Leaf ''Network error'')])]"
    by simp
qed

theorem mergeWithFallback_deep_merge_witness:
  "wf_msg (Node [(''title'', Leaf ''PDF''), (''errors'', Node [(''fileTooLarge'', Leaf ''Too big'')])])
   \<and> mergeWithFallback (Node [(''title'', Leaf ''PDF''), (''errors'', Node [(''fileTooLarge'', Leaf ''Too big'')])])
        (Node [(''title'', Leaf ''PDF''), (''errors'', Node [(''fileTooLarge'', Leaf ''Too big'')])])
      = Node [(''title'', Leaf ''PDF''), (''errors'', Node [(''fileTooLarge'', Leaf ''Too big'')])]
   \<and> child (Node [(''title'', Leaf ''PDF'')]) ''title'' = Some (Leaf ''PDF'')
   \<and> child (mergeWithFallback (Node [(''title'', Leaf ''PDF'')])
        (Node [(''title'', Leaf ''Base title''), (''tagline'', Leaf ''Free'')])) ''title''
      = Some (Leaf ''PDF'')
   \<and> child (Node [(''title'', Leaf ''PDF'')]) ''tagline'' = None
   \<and> child (mergeWithFallback (Node [(''title'', Leaf ''PDF'')])
        (Node [(''title'', Leaf ''Base title''), (''tagline'', Leaf ''Free'')])) ''tagline''
      = Some (Leaf ''Free'')
   \<and> has_key_path (Node [(''title'', Leaf ''Base title''), (''tagline'', Leaf ''Free'')]) [''tagline'']
   \<and> \<not> beneath_leaf (Node [(''title'', Leaf ''PDF'')]) [''tagline'']
   \<and> has_key_path (mergeWithFallback (Node [(''title'', Leaf ''PDF'')])
        (Node [(''title'', Leaf ''Base title''), (''tagline'', Leaf ''Free'')])) [''tagline'']
   \<and> mergeWithFallback_heap (Suc (Suc 0))
        [[(''fileTooLarge'', HStr ''Too big'')], [(''errors'', HRef 0)],
         [(''fileTooLarge'', HStr ''File too large''), (''networkError'', HStr ''Network error'')],
         [(''errors'', HRef 2)]] 1 3
      = Some ([[(''fileTooLarge'', HStr ''Too big'')], [(''errors'', HRef 0)],
               [(''fileTooLarge'', HStr ''File too large''), (''networkError'', HStr ''Network error'')],
               [(''errors'', HRef 2)],
               [(''fileTooLarge'', HStr ''Too big''), (''networkError'', HStr ''Network error'')],
               [(''errors'', HRef 4)]], 5)
   \<and> take 4 [[(''fileTooLarge'', HStr ''Too big'')], [(''errors'', HRef 0)],
               [(''fileTooLarge'', HStr ''File too large''), (''networkError'', HStr ''Network error'')],
               [(''errors'', HRef 2)],
               [(''fileTooLarge'', HStr ''Too big''), (''networkError'', HStr ''Network error'')],
               [(''errors'', HRef 4)]]
      = [[(''fileTooLarge'', HStr ''Too big'')], [(''errors'', HRef 0)],
         [(''fileTooLarge'', HStr ''File too large''), (''networkError'', HStr ''Network error'')],
         [(''errors'', HRef 2)]]
   \<and> stored [[(''fileTooLarge'', HStr ''Too big'')], [(''errors'', HRef 0)],
               [(''fileTooLarge'', HStr ''File too large''), (''networkError'', HStr ''Network error'')],
               [(''errors'', HRef 2)],
               [(''fileTooLarge'', HStr ''Too big''), (''networkError'', HStr ''Network error'')],
               [(''errors'', HRef 4)]] (HRef 5)
        (mergeWithFallback (Node [(''errors'', Node [(''fileTooLarge'', Leaf ''Too big'')])])
           (Node [(''errors'', Node [(''fileTooLarge'', Leaf ''File too large''),
                                      (''networkError'', Leaf ''Network error'')])]))"
proof -
  let ?t = "Node [(''title'', Leaf ''PDF''), (''errors'', Node [(''fileTooLarge'', Leaf ''Too big'')])]"
  let ?p = "[(''title'', Leaf ''PDF'')]"
  let ?b = "[(''title'', Leaf ''Base title''), (''tagline'', Leaf ''Free'')]"
  let ?h = "[[(''fileTooLarge'', HStr ''Too big'')], [(''errors'', HRef 0)],
         [(''fileTooLarge'', HStr ''File too large''), (''networkError'', HStr ''Network error'')],
         [(''errors'', HRef 2)]]"
  let ?h' = "[[(''fileTooLarge'', HStr ''Too big'')], [(''errors'', HRef 0)],
         [(''fileTooLarge'', HStr ''File too large''), (''networkError'', HStr ''Network error'')],
         [(''errors'', HRef 2)],
         [(''fileTooLarge'', HStr ''Too big''), (''networkError'', HStr ''Network error'')],
         [(''errors'', HRef 4)]]"
  let ?P = "Node [(''errors'', Node [(''fileTooLarge'', Leaf ''Too big'')])]"
  let ?B = "Node [(''errors'', Node [(''fileTooLarge'', Leaf ''File too large''),
                                      (''networkError'', Leaf ''Network error'')])]"
  have wf: "wf_msg ?t" by simp
  have idem: "mergeWithFallback ?t ?t = ?t"
    using mergeWithFallback_deep_merge [where t = ?t] wf by blast
  have leaf: "child (Node ?p) ''title'' = Some (Leaf ''PDF'')" by simp
  have wins: "child (mergeWithFallback (Node ?p) (Node ?b)) ''title'' = Some (Leaf ''PDF'')"
    using mergeWithFallback_deep_merge [where primary = ?p and base = ?b and k = "''title''" and s = "''PDF''"]
      leaf by blast
  have missing: "child (Node ?p) ''tagline'' = None" by simp
  have "child (mergeWithFallback (Node ?p) (Node ?b)) ''tagline'' = child (Node ?b) ''tagline''"
    using mergeWithFallback_deep_merge [where primary = ?p and base = ?b and k = "''tagline''"]
      missing by blast
  then have filled: "child (mergeWithFallback (Node ?p) (Node ?b)) ''tagline'' = Some (Leaf ''Free'')"
    by simp
  have path: "has_key_path (Node ?b) [''tagline'']" and free: "\<not> beneath_leaf (Node ?p) [''tagline'']"
    by (simp_all add: has_key_path_def)
  have kept: "has_key_path (mergeWithFallback (Node ?p) (Node ?b)) [''tagline'']"
    using mergeWithFallback_deep_merge [where t = "Node ?p" and base_tree = "Node ?b" and ks = "[''tagline'']"]
      path free by blast
  have run: "mergeWithFallback_heap (Suc (Suc 0)) ?h 1 3 = Some (?h', 5)"
    by (simp add: both_objects_def)
  have "take (length ?h) ?h' = ?h"
    using mergeWithFallback_deep_merge [where fuel = "Suc (Suc 0)" and h = ?h and ?a1.0 = 1 and ?a2.0 = 3
        and h' = ?h' and r = 5] run by blast
  then have frame: "take 4 ?h' = ?h" by simp
  have sp: "stored ?h (HRef 1) ?P" and sb: "stored ?h (HRef 3) ?B" and d: "depth ?P \<le> Suc (Suc 0)"
    by simp_all
  note heap_clause = mergeWithFallback_deep_merge [where fuel = "Suc (Suc 0)" and h = ?h
      and ?a1.0 = 1 and ?a2.0 = 3 and t = ?P and base_tree = ?B,
      THEN conjunct2, THEN conjunct2, THEN conjunct2, THEN conjunct2, THEN conjunct2,
      THEN conjunct2, THEN conjunct2, THEN conjunct2, THEN conjunct2, THEN conjunct2,
      THEN conjunct1]
  from sp sb d have "stored ?h (HRef 1) ?P \<and> stored ?h (HRef 3) ?B \<and> depth ?P \<le> Suc (Suc 0)"
    by (intro conjI)
  with heap_clause have "\<exists>h1 r1. mergeWithFallback_heap (Suc (Suc 0)) ?h 1 3 = Some (h1, r1)
      \<and> stored h1 (HRef r1) (mergeWithFallback ?P ?B)
      \<and> stored h1 (HRef 1) ?P \<and> stored h1 (HRef 3) ?B"
    by (rule mp)
  then obtain h1 r1 where "mergeWithFallback_heap (Suc (Suc 0)) ?h 1 3 = Some (h1, r1)"
    and "stored h1 (HRef r1) (mergeWithFallback ?P ?B)"
    by (elim exE conjE)
  with run have result: "stored ?h' (HRef 5) (mergeWithFallback ?P ?B)"
    by simp
  from wf idem leaf wins missing filled path free kept run frame result show ?thesis
    by (intro conjI)
qed

section \<open>Properties of the translator\<close>

lemma placeholder_at_Some:
  assumes "placeholder_at s = Some (name, rest)"
  shows "s = ''{{'' @ name @ ''}}'' @ rest"
proof -
  let ?t = "drop 2 s"
  let ?after = "dropWhile is_identifier_char ?t"
  from assms have two: "take 2 s = ''{{''" and name: "name = takeWhile is_identifier_char ?t"
    and close: "take 2 ?after = ''}}''" and rest: "rest = drop 2 ?after"
    by (auto simp: placeholder_at_def Let_def split: if_splits)
  have "s = take 2 s @ ?t" by simp
  also have "?t = name @ ?after" unfolding name by simp
  also have "?after = take 2 ?after @ rest" unfolding rest by simp
  finally show ?thesis unfolding two close by simp
qed

lemma interpolate_no_variables: "interpolate Map.empty s = s"
proof (induction "Map.empty :: string \<rightharpoonup> string" s rule: interpolate.induct)
  case 1
  show ?case by simp
next
  case (2 c cs)
  show ?case
  proof (cases "placeholder_at (c # cs)")
    case None
    with 2 show ?thesis by simp
  next
    case (Some x)
    obtain name rest where x: "x = (name, rest)" by (cases x)
    from placeholder_at_Some [OF Some [unfolded x]] 2(2) [OF Some x [symmetric]] Some x
    show ?thesis by simp
  qed
qed

lemma placeholder_at_here:
  assumes "name \<noteq> []" "list_all is_identifier_char name"
  shows "placeholder_at (''{{'' @ name @ ''}}'' @ post) = Some (name, post)"
proof -
  have nb: "\<not> is_identifier_char CHR ''}''" by (simp add: is_identifier_char_def)
  from assms(2) have all: "\<forall>c\<in>set name. is_identifier_char c" by (simp add: list_all_iff)
  have tw: "takeWhile is_identifier_char (name @ CHR ''}'' # CHR ''}'' # post) = name"
    using all nb by (simp add: takeWhile_tail)
  have dw: "dropWhile is_identifier_char (name @ CHR ''}'' # CHR ''}'' # post) = CHR ''}'' # CHR ''}'' # post"
    using all nb by (simp add: dropWhile_append3)
  show ?thesis
    using assms(1) by (simp add: placeholder_at_def tw dw)
qed

lemma interpolate_placeholder:
  assumes "name \<noteq> []" "list_all is_identifier_char name" "CHR ''{'' \<notin> set pre"
  shows "interpolate vars (pre @ ''{{'' @ name @ ''}}'' @ post) =
           pre @ (case vars name of Some v \<Rightarrow> v | None \<Rightarrow> ''{{'' @ name @ ''}}'')
               @ interpolate vars post"
  using assms(3)
proof (induction pre)
  case Nil
  from placeholder_at_here [OF assms(1,2), of post]
  have "placeholder_at (CHR ''{'' # CHR ''{'' # name @ CHR ''}'' # CHR ''}'' # post) = Some (name, post)"
    by simp
  then show ?case by simp
next
  case (Cons c pre)
  then have "c \<noteq> CHR ''{''" by auto
  then have "placeholder_at (c # pre @ ''{{'' @ name @ ''}}'' @ post) = None"
    by (simp add: placeholder_at_def)
  with Cons show ?case by simp
qed

lemma not_ident_brace: "\<not> is_identifier_char CHR ''{''"
  by (simp add: is_identifier_char_def)

lemma placeholder_at_before:
  assumes "s \<noteq> []"
  shows "placeholder_at (s @ ''{{'' @ y) =
           map_option (\<lambda>(n, r). (n, r @ ''{{'' @ y)) (placeholder_at s)"
proof (cases "take 2 s = ''{{''")
  case True
  then have len: "2 \<le> length s" by (cases s; cases "tl s") auto
  let ?t = "drop 2 s"
  have t2: "take 2 (s @ ''{{'' @ y) = ''{{''" using True len by simp
  have d2: "drop 2 (s @ ''{{'' @ y) = ?t @ ''{{'' @ y" using len by simp
  show ?thesis
  proof (cases "\<forall>c\<in>set ?t. is_identifier_char c")
    case all: True
    then have tw: "takeWhile is_identifier_char (?t @ ''{{'' @ y) = ?t"
      and dw: "dropWhile is_identifier_char (?t @ ''{{'' @ y) = ''{{'' @ y"
      using not_ident_brace by (simp_all add: takeWhile_tail dropWhile_append3)
    from all have tw0: "takeWhile is_identifier_char ?t = ?t"
      and dw0: "dropWhile is_identifier_char ?t = []"
      by simp_all
    show ?thesis
      unfolding placeholder_at_def t2 d2 tw dw True tw0 dw0 by (simp add: Let_def)
  next
    case False
    then obtain c where c: "c \<in> set ?t" "\<not> is_identifier_char c" by blast
    then have tw: "takeWhile is_identifier_char (?t @ ''{{'' @ y) = takeWhile is_identifier_char ?t"
      and dw: "dropWhile is_identifier_char (?t @ ''{{'' @ y) =
          dropWhile is_identifier_char ?t @ ''{{'' @ y"
      by (simp_all add: takeWhile_append1 dropWhile_append1)
    let ?after = "dropWhile is_identifier_char ?t"
    have ne: "?after \<noteq> []" using c by (simp add: dropWhile_eq_Nil_conv) blast
    have close: "take 2 (?after @ ''{{'' @ y) = ''}}'' \<longleftrightarrow> take 2 ?after = ''}}''"
      using ne by (cases ?after; cases "tl ?after") auto
    have rest: "take 2 ?after = ''}}'' \<Longrightarrow> drop 2 (?after @ ''{{'' @ y) = drop 2 ?after @ ''{{'' @ y"
      by (cases ?after; cases "tl ?after") auto
    show ?thesis
      unfolding placeholder_at_def t2 d2 tw dw True Let_def using close rest by auto
  qed
next
  case False
  have "take 2 (s @ ''{{'' @ y) = ''{{'' \<Longrightarrow>
      takeWhile is_identifier_char (drop 2 (s @ ''{{'' @ y)) = []"
    using False assms not_ident_brace by (cases s; cases "tl s") auto
  then have "placeholder_at (s @ ''{{'' @ y) = None"
    by (auto simp: placeholder_at_def Let_def)
  moreover have "placeholder_at s = None"
    using False by (simp add: placeholder_at_def)
  ultimately show ?thesis by simp
qed

lemma interpolate_before:
  "interpolate vars (pre @ ''{{'' @ y) = interpolate vars pre @ interpolate vars (''{{'' @ y)"
proof (induction vars pre rule: interpolate.induct)
  case (1 variables)
  show ?case by simp
next
  case (2 variables c cs)
  have pa: "placeholder_at ((c # cs) @ ''{{'' @ y) =
      map_option (\<lambda>(n, r). (n, r @ ''{{'' @ y)) (placeholder_at (c # cs))"
    by (rule placeholder_at_before) simp
  show ?case
  proof (cases "placeholder_at (c # cs)")
    case None
    with pa have "placeholder_at (c # cs @ ''{{'' @ y) = None" by simp
    with None 2(1) [OF None] show ?thesis by simp
  next
    case (Some x)
    obtain name rest where x: "x = (name, rest)" by (cases x)
    with pa Some have "placeholder_at (c # cs @ ''{{'' @ y) = Some (name, rest @ ''{{'' @ y)"
      by simp
    with Some x 2(2) [OF Some x [symmetric]] show ?thesis by simp
  qed
qed

lemma interpolate_no_placeholder: "no_placeholder s \<Longrightarrow> interpolate vars s = s"
  by (induction s) auto

text \<open>
  Claim C5. In a resolved leaf, every placeholder is replaced by the variable of its name
  when the variables have one and stays as it is written otherwise, whatever text stands
  before it, stray braces included: the text before and the text after are treated in the
  same way, and a text without placeholders is returned as it is. With no variables the
  leaf is returned unchanged, and a key that does not resolve is returned itself, so that
  the translator always returns a string. Over the tree \<open>{greet: "Hello {{name}}"}\<close>, the
  key \<open>greet\<close> with \<open>{name: "Ann"}\<close> gives \<open>Hello Ann\<close> and with no variables gives
  \<open>Hello {{name}}\<close>.
\<close>

theorem createTranslator_interpolates:
  "(name \<noteq> [] \<and> list_all is_identifier_char name \<longrightarrow>
      interpolate vars (pre @ ''{{'' @ name @ ''}}'' @ post) =
        interpolate vars pre
          @ (case vars name of Some v \<Rightarrow> v | None \<Rightarrow> ''{{'' @ name @ ''}}'')
          @ interpolate vars post)
   \<and> (no_placeholder leaf \<longrightarrow> interpolate vars leaf = leaf)
   \<and> interpolate Map.empty leaf = leaf
   \<and> createTranslator tree dotPath None =
        (case resolve tree dotPath of Some text \<Rightarrow> text | None \<Rightarrow> dotPath)
   \<and> createTranslator tree dotPath (Some vars) =
        (case resolve tree dotPath of Some text \<Rightarrow> interpolate vars text | None \<Rightarrow> dotPath)
   \<and> createTranslator (Node [(''greet'', Leaf ''Hello {{name}}'')]) ''greet''
        (Some [''name'' \<mapsto> ''Ann'']) = ''Hello Ann''
   \<and> createTranslator (Node [(''greet'', Leaf ''Hello {{name}}'')]) ''greet'' None
        = ''Hello {{name}}''"
proof (intro conjI impI)
  show "interpolate vars (pre @ ''{{'' @ name @ ''}}'' @ post) =
        interpolate vars pre
          @ (case vars name of Some v \<Rightarrow> v | None \<Rightarrow> ''{{'' @ name @ ''}}'')
          @ interpolate vars post"
    if asm: "name \<noteq> [] \<and> list_all is_identifier_char name"
  proof -
    have "interpolate vars (''{{'' @ name @ ''}}'' @ post) =
        (case vars name of Some v \<Rightarrow> v | None \<Rightarrow> ''{{'' @ name @ ''}}'') @ interpolate vars post"
      using interpolate_placeholder [of name "[]" vars post] asm by simp
    then show ?thesis
      using interpolate_before [of vars pre "name @ ''}}'' @ post"] by simp
  qed
  show "interpolate vars leaf = leaf" if "no_placeholder leaf"
    using that by (rule interpolate_no_placeholder)
  show "interpolate Map.empty leaf = leaf"
    by (rule interpolate_no_variables)
  show "createTranslator tree dotPath None =
        (case resolve tree dotPath of Some text \<Rightarrow> text | None \<Rightarrow> dotPath)"
    by (simp add: createTranslator_def interpolate_no_variables split: option.splits)
  show "createTranslator tree dotPath (Some vars) =
        (case resolve tree dotPath of Some text \<Rightarrow> interpolate vars text | None \<Rightarrow> dotPath)"
    by (simp add: createTranslator_def split: option.splits)
  show "createTranslator (Node [(''greet'', Leaf ''Hello {{name}}'')]) ''greet''
        (Some [''name'' \<mapsto> ''Ann'']) = ''Hello Ann''"
    by (simp add: createTranslator_def resolve_def placeholder_at_def is_identifier_char_def)
  show "createTranslator (Node [(''greet'', Leaf ''Hello {{name}}'')]) ''greet'' None
        = ''Hello {{name}}''"
    by (simp add: createTranslator_def resolve_def interpolate_no_variables)
qed

theorem createTranslator_interpolates_witness:
  "''name'' \<noteq> [] \<and> list_all is_identifier_char ''name''
   \<and> no_placeholder ''Size {MB}: ''
   \<and> interpolate [''name'' \<mapsto> ''Ann''] ''Size {MB}: {{name}}!'' = ''Size {MB}: Ann!''
   \<and> interpolate [''user'' \<mapsto> ''Ann''] ''Size {MB}: {{name}}!'' = ''Size {MB}: {{name}}!''"
proof -
  have hyp: "''name'' \<noteq> [] \<and> list_all is_identifier_char ''name''"
    by (simp add: is_identifier_char_def)
  have np: "no_placeholder ''Size {MB}: ''" and np': "no_placeholder ''!''"
    by (simp_all add: placeholder_at_def)
  have pre: "interpolate vars ''Size {MB}: '' = ''Size {MB}: ''"
    and post: "interpolate vars ''!'' = ''!''" for vars
    using createTranslator_interpolates [where leaf = "''Size {MB}: ''" and vars = vars]
      createTranslator_interpolates [where leaf = "''!''" and vars = vars] np np' by blast+
  have "interpolate [''name'' \<mapsto> ''Ann''] (''Size {MB}: '' @ ''{{'' @ ''name'' @ ''}}'' @ ''!'') =
      interpolate [''name'' \<mapsto> ''Ann''] ''Size {MB}: ''
        @ (case [''name'' \<mapsto> ''Ann''] ''name'' of Some v \<Rightarrow> v | None \<Rightarrow> ''{{'' @ ''name'' @ ''}}'')
        @ interpolate [''name'' \<mapsto> ''Ann''] ''!''"
    using createTranslator_interpolates [where name = "''name''" and pre = "''Size {MB}: ''"] hyp
    by blast
  then have present: "interpolate [''name'' \<mapsto> ''Ann''] ''Size {MB}: {{name}}!'' = ''Size {MB}: Ann!''"
    unfolding pre post by simp
  have "interpolate [''user'' \<mapsto> ''Ann''] (''Size {MB}: '' @ ''{{'' @ ''name'' @ ''}}'' @ ''!'') =
      interpolate [''user'' \<mapsto> ''Ann''] ''Size {MB}: ''
        @ (case [''user'' \<mapsto> ''Ann''] ''name'' of Some v \<Rightarrow> v | None \<Rightarrow> ''{{'' @ ''name'' @ ''}}'')
        @ interpolate [''user'' \<mapsto> ''Ann''] ''!''"
    using createTranslator_interpolates [where name = "''name''" and pre = "''Size {MB}: ''"] hyp
    by blast
  then have absent: "interpolate [''user'' \<mapsto> ''Ann''] ''Size {MB}: {{name}}!'' = ''Size {MB}: {{name}}!''"
    unfolding pre post by simp
  from hyp np present absent show ?thesis by blast
qed

section \<open>Properties of the error-code check\<close>

lemma array_includes_iff: "array_includes codes s \<longleftrightarrow> s \<in> set codes"
  by (induction codes) auto

text \<open>
  Claim C8. \<open>isValidErrorCode\<close> is true of every member of the enumeration and false of
  every string that is not a member; a variant of a member in another letter case is such
  a string unless the enumeration lists it too.
\<close>

theorem isValidErrorCode_exact:
  "(\<forall>c \<in> set allErrorCodes. isValidErrorCode allErrorCodes c)
   \<and> (\<forall>s. s \<notin> set allErrorCodes \<longrightarrow> \<not> isValidErrorCode allErrorCodes s)"
  by (simp add: isValidErrorCode_def array_includes_iff)

theorem isValidErrorCode_exact_witness:
  "''FILE_TOO_LARGE'' \<in> set [''FILE_TOO_LARGE'', ''PROCESSING_FAILED'']
   \<and> isValidErrorCode [''FILE_TOO_LARGE'', ''PROCESSING_FAILED''] ''FILE_TOO_LARGE''
   \<and> ''file_too_large'' \<notin> set [''FILE_TOO_LARGE'', ''PROCESSING_FAILED'']
   \<and> \<not> isValidErrorCode [''FILE_TOO_LARGE'', ''PROCESSING_FAILED''] ''file_too_large''
   \<and> \<not> isValidErrorCode [''FILE_TOO_LARGE'', ''PROCESSING_FAILED''] ''File_Too_Large''"
proof -
  let ?codes = "[''FILE_TOO_LARGE'', ''PROCESSING_FAILED'']"
  have m: "''FILE_TOO_LARGE'' \<in> set ?codes" by simp
  have n1: "''file_too_large'' \<notin> set ?codes" by simp
  have n2: "''File_Too_Large'' \<notin> set ?codes" by simp
  from isValidErrorCode_exact [of ?codes] m n1 n2 show ?thesis by blast
qed

end
